theory Spec2Isabelle
  imports Main "HOL-Library.Word" "HOL-Library.While_Combinator"
begin

unbundle bit_operations_syntax

section \<open>The FS9721 example parser (docs/example\_parser.c)\<close>

text \<open>
  The C file decodes one 14-byte packet of an FS9721 multimeter into a 7-byte buffer.
  Bytes are \<open>uint8_t\<close>, modelled as \<open>8 word\<close>; the loop counters are C \<open>int\<close>s that stay
  between 0 and 14, modelled as \<open>nat\<close> (\<open>cnt\<close> of \<open>reverse\<close>, which is decremented, as \<open>int\<close>).
\<close>

type_synonym byte = "8 word"

definition PACKET_LENGTH :: nat where
  "PACKET_LENGTH = 14"

definition DATA_LENGTH :: nat where
  "DATA_LENGTH = 7"

subsection \<open>reverse\<close>

text \<open>
  \<^verbatim>\<open>
  uint8_t reverse(uint8_t in) {
      uint8_t r = in;
      int cnt = 7;
      for (in >>= 1; in; in >>= 1) {
          r <<= 1;
          r |= in & 1;
          cnt--;
      }
      r <<= cnt;
      return r;
  }
  \<close>
  The loop state is the triple \<open>(r, in, cnt)\<close>. \<open>reverse_body\<close> is one pass through the
  body followed by the loop's increment \<open>in >>= 1\<close>; \<open>reverse_cond\<close> is the loop test.
  \<open>r <<= 1\<close> on a \<open>uint8_t\<close> drops the bit shifted out, as \<open>push_bit\<close> on \<open>8 word\<close> does.
\<close>

type_synonym reverse_state = "byte \<times> byte \<times> int"

definition reverse_cond :: "reverse_state \<Rightarrow> bool" where
  "reverse_cond s = (case s of (r, inp, cnt) \<Rightarrow> inp \<noteq> 0)"

definition reverse_body :: "reverse_state \<Rightarrow> reverse_state" where
  "reverse_body s = (case s of (r, inp, cnt) \<Rightarrow>
     (push_bit 1 r OR (inp AND 1), drop_bit 1 inp, cnt - 1))"

function reverse_loop :: "reverse_state \<Rightarrow> reverse_state" where
  "reverse_loop s = (if reverse_cond s then reverse_loop (reverse_body s) else s)"
  by pat_completeness auto

termination reverse_loop
proof (relation "measure (\<lambda>(r, inp, cnt). unat inp)")
  show "wf (measure (\<lambda>(r, inp, cnt). unat inp))" by simp
next
  fix s :: reverse_state
  assume c: "reverse_cond s"
  obtain r inp cnt where s: "s = (r, inp, cnt)" by (cases s)
  have "inp \<noteq> 0" using c by (simp add: s reverse_cond_def)
  then have "unat inp \<noteq> 0" by (simp add: unat_eq_zero)
  moreover have "unat (drop_bit 1 inp) = unat inp div 2"
    by (simp only: unat_drop_bit_eq) (simp add: drop_bit_eq_div)
  ultimately have "unat (drop_bit 1 inp) < unat inp" by simp
  then show "(reverse_body s, s) \<in> measure (\<lambda>(r, inp, cnt). unat inp)"
    by (simp add: s reverse_body_def)
qed

declare reverse_loop.simps [simp del]

text \<open>
  The final \<open>r <<= cnt\<close> shifts by \<open>cnt\<close>, which is shown below to lie between 0 and 7
  (a negative shift count would be undefined in C).
\<close>

definition reverse :: "byte \<Rightarrow> byte" where
  "reverse inp = (case reverse_loop (inp, drop_bit 1 inp, 7) of
     (r, inp', cnt) \<Rightarrow> push_bit (nat cnt) r)"

subsection \<open>The heap\<close>

text \<open>
  \<open>parse_packet\<close> returns a pointer to a block it takes from \<open>calloc\<close> and writes through
  that pointer. The heap maps a pointer to the bytes of its block, as many as were
  requested; \<open>brk\<close> is the next pointer \<open>calloc\<close> hands out. \<open>calloc\<close> is taken to succeed
  always (the source does not test its result).

  C gives no meaning to an access outside a block or outside the caller's buffer. The
  model stops there with a \<open>fault\<close> that records the offset: such an access is an
  outcome of its own, never a byte read from nowhere.
\<close>

record heap =
  blocks :: "nat \<Rightarrow> byte list option"
  brk :: nat

datatype fault =
    InputOverrun nat   \<comment> \<open>\<open>data[i]\<close> read past the end of the caller's buffer\<close>
  | HeapOverrun nat    \<comment> \<open>\<open>packet->data[i]\<close> accessed past the end of the allocated block\<close>
  | WildPointer        \<comment> \<open>access through a pointer that is no live block\<close>

definition sizeof_uint8_t :: nat where
  "sizeof_uint8_t = 1"

definition calloc :: "nat \<Rightarrow> nat \<Rightarrow> heap \<Rightarrow> nat \<times> heap" where
  "calloc nmemb sz h =
     (brk h, h\<lparr>blocks := (blocks h)(brk h \<mapsto> replicate (nmemb * sz) 0), brk := Suc (brk h)\<rparr>)"

definition load :: "heap \<Rightarrow> nat \<Rightarrow> nat \<Rightarrow> fault + byte" where
  "load h p off =
     (case blocks h p of
        None \<Rightarrow> Inl WildPointer
      | Some bs \<Rightarrow> if off < length bs then Inr (bs ! off) else Inl (HeapOverrun off))"

definition store :: "heap \<Rightarrow> nat \<Rightarrow> nat \<Rightarrow> byte \<Rightarrow> fault + heap" where
  "store h p off v =
     (case blocks h p of
        None \<Rightarrow> Inl WildPointer
      | Some bs \<Rightarrow>
          if off < length bs then Inr (h\<lparr>blocks := (blocks h)(p \<mapsto> bs[off := v])\<rparr>)
          else Inl (HeapOverrun off))"

text \<open>The caller's buffer \<open>uint8_t *data\<close> is the list of the bytes it holds.\<close>

definition read_input :: "byte list \<Rightarrow> nat \<Rightarrow> fault + byte" where
  "read_input data i = (if i < length data then Inr (data ! i) else Inl (InputOverrun i))"

subsection \<open>parse\_packet\<close>

text \<open>
  \<^verbatim>\<open>
  multimeter_reading* parse_packet(uint8_t *data) {
      multimeter_reading *packet = (multimeter_reading *)calloc(1, sizeof(uint8_t));

      for (int i=0; i < PACKET_LENGTH; i++) {
          if ((i+1) != (data[i] >> 4)) {
              return NULL;
          }
          uint8_t mask = data[i] & 0x0F;
          if ((i%2) == 0) {
              mask = mask << 4;
          }
          packet->data[i/2] |= mask;
      }

      #ifdef REVERSE_DATA
      for (int i=0; i < PACKET_LENGTH; i++) {
          packet->data[i] = reverse(packet->data[i]);
      }
      #endif

      return packet;
  }
  \<close>
  \<open>REVERSE_DATA\<close> is defined at the top of the file, so the second loop is part of the
  function. \<open>data\<close> is the first member of the union, at offset 0 of the block, so
  \<open>packet->data[k]\<close> is the byte at offset \<open>k\<close>. The comparison of the tag is made on
  \<open>int\<close>s, after the integer promotion of \<open>data[i] >> 4\<close>.
\<close>

definition sequence_mismatch :: "nat \<Rightarrow> byte \<Rightarrow> bool" where
  "sequence_mismatch i d = (int (i + 1) \<noteq> uint (drop_bit 4 d))"

text \<open>The first loop, from index \<open>i\<close>; \<open>False\<close> is its \<open>return NULL\<close>.\<close>

function merge_loop :: "byte list \<Rightarrow> nat \<Rightarrow> nat \<Rightarrow> heap \<Rightarrow> fault + (bool \<times> heap)" where
  "merge_loop data packet i h =
     (if i < PACKET_LENGTH then
        (case read_input data i of
           Inl f \<Rightarrow> Inl f
         | Inr d \<Rightarrow>
             if sequence_mismatch i d then Inr (False, h)
             else
               let mask = d AND 0x0F;
                   mask = (if i mod 2 = 0 then push_bit 4 mask else mask)
               in (case load h packet (i div 2) of
                     Inl f \<Rightarrow> Inl f
                   | Inr old \<Rightarrow>
                       (case store h packet (i div 2) (old OR mask) of
                          Inl f \<Rightarrow> Inl f
                        | Inr h' \<Rightarrow> merge_loop data packet (i + 1) h')))
      else Inr (True, h))"
  by pat_completeness auto
termination
  by (relation "measure (\<lambda>(data, packet, i, h). PACKET_LENGTH - i)") auto

declare merge_loop.simps [simp del]

text \<open>The value of \<open>mask\<close> that the body ORs into \<open>packet->data[i/2]\<close>.\<close>

definition merge_mask :: "nat \<Rightarrow> byte \<Rightarrow> byte" where
  "merge_mask i d = (if i mod 2 = 0 then push_bit 4 (d AND 0x0F) else d AND 0x0F)"

text \<open>The second loop, from index \<open>i\<close>.\<close>

function reverse_data_loop :: "nat \<Rightarrow> nat \<Rightarrow> heap \<Rightarrow> fault + heap" where
  "reverse_data_loop packet i h =
     (if i < PACKET_LENGTH then
        (case load h packet i of
           Inl f \<Rightarrow> Inl f
         | Inr b \<Rightarrow>
             (case store h packet i (reverse b) of
                Inl f \<Rightarrow> Inl f
              | Inr h' \<Rightarrow> reverse_data_loop packet (i + 1) h'))
      else Inr h)"
  by pat_completeness auto
termination
  by (relation "measure (\<lambda>(packet, i, h). PACKET_LENGTH - i)") auto

declare reverse_data_loop.simps [simp del]

text \<open>The result is the pointer returned, \<open>None\<close> for \<open>NULL\<close>, and the heap left behind.\<close>

definition parse_packet :: "byte list \<Rightarrow> heap \<Rightarrow> fault + (nat option \<times> heap)" where
  "parse_packet data h =
     (case calloc 1 sizeof_uint8_t h of
        (packet, h0) \<Rightarrow>
          (case merge_loop data packet 0 h0 of
             Inl f \<Rightarrow> Inl f
           | Inr (ok, h1) \<Rightarrow>
               if \<not> ok then Inr (None, h1)
               else
                 (case reverse_data_loop packet 0 h1 of
                    Inl f \<Rightarrow> Inl f
                  | Inr h2 \<Rightarrow> Inr (Some packet, h2))))"

text \<open>
  What the caller sees of a call: the fault, or \<open>NULL\<close>, or the bytes of the block the
  returned pointer points to.
\<close>

definition reading_of :: "fault + (nat option \<times> heap) \<Rightarrow> fault + byte list option" where
  "reading_of res =
     (case res of
        Inl f \<Rightarrow> Inl f
      | Inr (None, h) \<Rightarrow> Inr None
      | Inr (Some p, h) \<Rightarrow> Inr (blocks h p))"

subsection \<open>lookup\_digit\<close>

text \<open>
  \<^verbatim>\<open>
  char lookup_digit(uint8_t segments) {
      switch segments {
          case 0x7D: return "0";
          case 0x05: return "1";
          case 0x5B: return "2";
          case 0x1F: return "3";
          case 0x27: return "4";
          case 0x3E: return "5";
          case 0x7E: return "6";
          case 0x15: return "7";
          case 0x7F: return "8";
          case 0x3F: return "9";
          case 0x68: return "L";
          default:
              return "";
      }
  }
  \<close>
  The function is declared to return \<open>char\<close> and every \<open>return\<close> gives a string literal,
  that is, a pointer to the literal's first character. What comes back is that pointer
  converted to \<open>char\<close>: the low eight bits of the literal's address, not the character
  the literal holds. (\<open>switch segments {\<close> is read as \<open>switch (segments) {\<close>.)

  Where the literals lie is chosen by the compiler and the linker, so the placement is
  a parameter of the model: \<open>lit s\<close> is the address of the literal \<open>s\<close>.
\<close>

definition pointer_to_char :: "nat \<Rightarrow> byte" where
  "pointer_to_char a = of_nat a"

definition lookup_digit :: "(string \<Rightarrow> nat) \<Rightarrow> byte \<Rightarrow> byte" where
  "lookup_digit lit segments =
     (if segments = 0x7D then pointer_to_char (lit ''0'')
      else if segments = 0x05 then pointer_to_char (lit ''1'')
      else if segments = 0x5B then pointer_to_char (lit ''2'')
      else if segments = 0x1F then pointer_to_char (lit ''3'')
      else if segments = 0x27 then pointer_to_char (lit ''4'')
      else if segments = 0x3E then pointer_to_char (lit ''5'')
      else if segments = 0x7E then pointer_to_char (lit ''6'')
      else if segments = 0x15 then pointer_to_char (lit ''7'')
      else if segments = 0x7F then pointer_to_char (lit ''8'')
      else if segments = 0x3F then pointer_to_char (lit ''9'')
      else if segments = 0x68 then pointer_to_char (lit ''L'')
      else pointer_to_char (lit []))"

text \<open>
  A placement of the twelve literals: in the order of the source, 64 bytes apart, the
  first at 0x4A0020.
\<close>

definition spaced_literals :: "string \<Rightarrow> nat" where
  "spaced_literals s =
     (if s = ''0'' then 0x4A0020
      else if s = ''1'' then 0x4A0060
      else if s = ''2'' then 0x4A00A0
      else if s = ''3'' then 0x4A00E0
      else if s = ''4'' then 0x4A0120
      else if s = ''5'' then 0x4A0160
      else if s = ''6'' then 0x4A01A0
      else if s = ''7'' then 0x4A01E0
      else if s = ''8'' then 0x4A0220
      else if s = ''9'' then 0x4A0260
      else if s = ''L'' then 0x4A02A0
      else 0x4A02E0)"

text \<open>The case labels of the switch.\<close>

definition segment_patterns :: "byte list" where
  "segment_patterns = [0x7D, 0x05, 0x5B, 0x1F, 0x27, 0x3E, 0x7E, 0x15, 0x7F, 0x3F, 0x68]"

subsection \<open>The packet of main\<close>

definition example_packet :: "byte list" where
  "example_packet =
     [0x17, 0x27, 0x3D, 0x47, 0x5D, 0x65, 0x7B, 0x89, 0x97, 0xA0, 0xB8, 0xC0, 0xD4, 0xE1]"

text \<open>
  The merged byte \<open>k\<close> in the words of the specification:
  \<open>output = (payload(2k) << 4) | payload(2k+1)\<close>, the payload being the low nibble.
\<close>

definition spec_merged :: "byte list \<Rightarrow> nat \<Rightarrow> byte" where
  "spec_merged data k = push_bit 4 (data ! (2 * k) AND 0x0F) OR (data ! (2 * k + 1) AND 0x0F)"

text \<open>What the passes \<open>i\<close>, \<open>i + 1\<close>, ... of the first loop OR into byte \<open>k\<close> of the block.\<close>

definition pending :: "byte list \<Rightarrow> nat \<Rightarrow> nat \<Rightarrow> byte" where
  "pending data i k =
     (if i \<le> 2 * k then merge_mask (2 * k) (data ! (2 * k)) else 0) OR
     (if i \<le> 2 * k + 1 then merge_mask (2 * k + 1) (data ! (2 * k + 1)) else 0)"

text \<open>A heap with no block.\<close>

definition empty_heap :: heap where
  "empty_heap = \<lparr>blocks = Map.empty, brk = 0\<rparr>"

section \<open>Bit reversal\<close>

lemma shift_right_decreases: "inp \<noteq> 0 \<Longrightarrow> unat (drop_bit 1 inp) < unat (inp :: byte)"
proof -
  assume "inp \<noteq> 0"
  then have "unat inp \<noteq> 0" by (simp add: unat_eq_zero)
  moreover have "unat (drop_bit 1 inp) = unat inp div 2"
    by (simp only: unat_drop_bit_eq) (simp add: drop_bit_eq_div)
  ultimately show ?thesis by simp
qed

lemma reverse_loop_stop: "reverse_loop (r, 0, cnt) = (r, 0, cnt)"
  by (subst reverse_loop.simps) (simp add: reverse_cond_def)

lemma reverse_loop_go:
  "inp \<noteq> 0 \<Longrightarrow> reverse_loop (r, inp, cnt) =
     reverse_loop (push_bit 1 r OR (inp AND 1), drop_bit 1 inp, cnt - 1)"
  by (subst reverse_loop.simps) (simp add: reverse_cond_def reverse_body_def)

lemma bit_shift_right_1: "bit (drop_bit 1 (x :: byte)) n = bit x (Suc n)"
  unfolding bit_drop_bit_eq by simp

lemma bit_body_0: "bit (push_bit 1 (r :: byte) OR (inp AND 1)) 0 = bit inp 0"
  unfolding bit_or_iff bit_and_iff bit_push_bit_iff bit_1_iff by simp

lemma bit_body_Suc:
  "Suc n < 8 \<Longrightarrow> bit (push_bit 1 (r :: byte) OR (inp AND 1)) (Suc n) = bit r n"
  unfolding bit_or_iff bit_and_iff bit_push_bit_iff bit_1_iff by simp

text \<open>
  The loop invariant, stated for the whole run: when \<open>inp\<close> has no bit at \<open>m\<close> or above,
  the loop makes \<open>k \<le> m\<close> passes, leaves \<open>in = 0\<close> and \<open>cnt - k\<close>, the low \<open>k\<close> bits of the
  result are the low \<open>k\<close> bits of \<open>inp\<close> in reverse order, and the bits of \<open>r\<close> have moved
  up by \<open>k\<close>.
\<close>

lemma reverse_loop_bits:
  "drop_bit m inp = 0 \<Longrightarrow> m \<le> 8 \<Longrightarrow>
   \<exists>k r'. k \<le> m \<and> reverse_loop (r, inp, cnt) = (r', 0, cnt - int k) \<and> drop_bit k inp = 0 \<and>
     (\<forall>i j. i + j + 1 = k \<longrightarrow> bit r' i = bit inp j) \<and>
     (\<forall>i. i + k < 8 \<longrightarrow> bit r' (i + k) = bit r i)"
proof (induction m arbitrary: r inp cnt)
  case 0
  then have "inp = 0" by simp
  then have "reverse_loop (r, inp, cnt) = (r, 0, cnt - int 0)"
    by (simp add: reverse_loop_stop)
  then show ?case using \<open>inp = 0\<close>
    by (intro exI [of _ 0] exI [of _ r]) simp
next
  case (Suc m)
  show ?case
  proof (cases "inp = 0")
    case True
    then have "reverse_loop (r, inp, cnt) = (r, 0, cnt - int 0)"
      by (simp add: reverse_loop_stop)
    then show ?thesis using True
      by (intro exI [of _ 0] exI [of _ r]) simp
  next
    case False
    let ?r1 = "push_bit 1 r OR (inp AND 1)"
    let ?i1 = "drop_bit 1 inp"
    have "drop_bit m ?i1 = 0" using Suc.prems(1) by (simp add: drop_bit_drop_bit)
    moreover have "m \<le> 8" using Suc.prems(2) by simp
    ultimately obtain k r' where k: "k \<le> m"
      and loop: "reverse_loop (?r1, ?i1, cnt - 1) = (r', 0, cnt - 1 - int k)"
      and top: "drop_bit k ?i1 = 0"
      and low: "\<And>i j. i + j + 1 = k \<Longrightarrow> bit r' i = bit ?i1 j"
      and high: "\<And>i. i + k < 8 \<Longrightarrow> bit r' (i + k) = bit ?r1 i"
      using Suc.IH [of ?i1 ?r1 "cnt - 1"] by blast
    have k8: "k < 8" using k Suc.prems(2) by simp
    have "reverse_loop (r, inp, cnt) = (r', 0, cnt - int (Suc k))"
      using False loop by (simp add: reverse_loop_go)
    moreover have "drop_bit (Suc k) inp = 0"
      using top by (simp add: drop_bit_drop_bit)
    moreover have "bit r' i = bit inp j" if "i + j + 1 = Suc k" for i j
    proof (cases j)
      case 0
      then have "i = 0 + k" using that by simp
      then have "bit r' i = bit ?r1 0" using high [of 0] k8 by simp
      then show ?thesis using 0 by (simp only: bit_body_0)
    next
      case (Suc j')
      then have "i + j' + 1 = k" using that by simp
      then have "bit r' i = bit ?i1 j'" by (rule low)
      then show ?thesis using Suc by (simp only: bit_shift_right_1)
    qed
    moreover have "bit r' (i + Suc k) = bit r i" if "i + Suc k < 8" for i
    proof -
      have "bit r' (Suc i + k) = bit ?r1 (Suc i)" using that by (intro high) simp
      moreover have "bit ?r1 (Suc i) = bit r i" using that by (intro bit_body_Suc) simp
      ultimately show ?thesis by simp
    qed
    ultimately show ?thesis using k
      by (intro exI [of _ "Suc k"] exI [of _ r']) simp
  qed
qed

lemma reverse_loop_from_start:
  "\<exists>k r'. k \<le> 7 \<and> reverse_loop (x, drop_bit 1 x, 7) = (r', 0, 7 - int k) \<and>
     drop_bit k (drop_bit 1 x) = 0 \<and>
     (\<forall>i j. i + j + 1 = k \<longrightarrow> bit r' i = bit (drop_bit 1 x) j) \<and>
     (\<forall>i. i + k < 8 \<longrightarrow> bit r' (i + k) = bit x i)"
proof -
  have "drop_bit 7 (drop_bit 1 x) = 0"
    by (simp only: drop_bit_drop_bit) simp
  then show ?thesis
    using reverse_loop_bits [of 7 "drop_bit 1 x" x 7] by simp
qed

text \<open>Bit \<open>i\<close> of the result is bit \<open>7 - i\<close> of the argument.\<close>

lemma bit_reverse_mirror:
  assumes "i + j = 7"
  shows "bit (reverse x) i = bit x j"
proof -
  obtain k r' where k: "k \<le> 7"
    and loop: "reverse_loop (x, drop_bit 1 x, 7) = (r', 0, 7 - int k)"
    and top: "drop_bit k (drop_bit 1 x) = 0"
    and low: "\<And>i j. i + j + 1 = k \<Longrightarrow> bit r' i = bit (drop_bit 1 x) j"
    and high: "\<And>i. i + k < 8 \<Longrightarrow> bit r' (i + k) = bit x i"
    using reverse_loop_from_start [of x] by auto
  define d where "d = 7 - k"
  have d: "d + k = 7" using k by (simp add: d_def)
  then have sh: "nat (7 - int k) = d" by simp
  have rv: "reverse x = push_bit d r'"
    unfolding reverse_def loop by (simp add: sh)
  have beyond: "\<not> bit x (Suc (k + e))" for e
  proof -
    have "bit (drop_bit k (drop_bit 1 x)) e = bit x (Suc (k + e))"
      unfolding bit_drop_bit_eq by simp
    then show ?thesis unfolding top by simp
  qed
  show ?thesis
  proof (cases "i < d")
    case True
    define e where "e = j - Suc k"
    have "j = Suc (k + e)" using True assms d by (simp add: e_def)
    then have "\<not> bit x j" using beyond by simp
    moreover have "\<not> bit (reverse x) i" using True by (simp add: rv bit_push_bit_iff)
    ultimately show ?thesis by simp
  next
    case False
    define a where "a = i - d"
    have a: "i = d + a" using False by (simp add: a_def)
    have i8: "i < 8" using assms by simp
    have ra: "bit (reverse x) i = bit r' a"
      using a i8 by (simp add: rv bit_push_bit_iff)
    show ?thesis
    proof (cases "a = k")
      case True
      then have "j = 0" using a d assms by simp
      moreover have "bit r' (0 + k) = bit x 0" by (rule high) (use k in simp)
      ultimately show ?thesis using ra True by simp
    next
      case False
      have "a + j = k" using a d assms by simp
      then obtain j' where j': "j = Suc j'" using False by (cases j) auto
      then have "a + j' + 1 = k" using \<open>a + j = k\<close> by simp
      then have "bit r' a = bit (drop_bit 1 x) j'" by (rule low)
      then show ?thesis using ra j' by (simp only: bit_shift_right_1)
    qed
  qed
qed

lemma reverse_reverse: "reverse (reverse x) = x"
proof (rule bit_word_eqI)
  fix n assume "n < LENGTH(8)"
  then have "n < 8" by simp
  define j where "j = 7 - n"
  have j: "n + j = 7" and j': "j + n = 7"
    using \<open>n < 8\<close> by (simp_all add: j_def)
  show "bit (reverse (reverse x)) n = bit x n"
    using bit_reverse_mirror [OF j, of "reverse x"] bit_reverse_mirror [OF j', of x] by simp
qed

lemmas reverse_unfold = reverse_def reverse_loop.simps reverse_cond_def reverse_body_def

text \<open>
  C5. For every byte \<open>x\<close>, \<open>reverse (reverse x) = x\<close>; and \<open>reverse\<close> maps 0x00 to 0x00,
  0xFF to 0xFF, 0x80 to 0x01 and 0x01 to 0x80.
\<close>

theorem reverse_involution:
  "reverse (reverse x) = x \<and> reverse 0x00 = 0x00 \<and> reverse 0xFF = 0xFF \<and>
   reverse 0x80 = 0x01 \<and> reverse 0x01 = 0x80"
proof (intro conjI)
  show "reverse (reverse x) = x" by (rule reverse_reverse)
  show "reverse 0x00 = 0x00" by (simp add: reverse_unfold)
  show "reverse 0xFF = 0xFF" by (simp add: reverse_unfold)
  show "reverse 0x80 = 0x01" by (simp add: reverse_unfold)
  show "reverse 0x01 = 0x80" by (simp add: reverse_unfold)
qed

text \<open>
  The same loop written with \<open>while_option\<close>, which is \<open>None\<close> when a loop never leaves,
  returns what \<open>reverse_loop\<close> returns.
\<close>

lemma while_reverse_loop:
  "while_option reverse_cond reverse_body s = Some (reverse_loop s)"
proof (induction s rule: reverse_loop.induct)
  case (1 s)
  show ?case
  proof (cases "reverse_cond s")
    case True
    then show ?thesis
      using 1 by (subst while_option_unfold, subst reverse_loop.simps) simp
  next
    case False
    then show ?thesis
      by (subst while_option_unfold, subst reverse_loop.simps) simp
  qed
qed

text \<open>
  C6. \<open>reverse\<close> is total on all 256 bytes: each pass of its loop strictly decreases the
  shifted value \<open>in\<close>; from the initial state the loop leaves with \<open>in = 0\<close>; \<open>cnt\<close> is then
  between 0 and 7, so the final shift is defined, and the byte returned is \<open>r << cnt\<close>.
\<close>

theorem reverse_total:
  "(reverse_cond (r0, inp, c0) \<longrightarrow>
      (case reverse_body (r0, inp, c0) of (r', inp', c') \<Rightarrow> unat inp' < unat inp)) \<and>
   (\<exists>r cnt. while_option reverse_cond reverse_body (x, drop_bit 1 x, 7) = Some (r, 0, cnt) \<and>
      0 \<le> cnt \<and> cnt \<le> 7 \<and> reverse x = push_bit (nat cnt) r)"
proof (intro conjI impI)
  assume "reverse_cond (r0, inp, c0)"
  then have "inp \<noteq> 0" by (simp add: reverse_cond_def)
  then have "unat (drop_bit 1 inp) < unat inp" by (rule shift_right_decreases)
  then show "case reverse_body (r0, inp, c0) of (r', inp', c') \<Rightarrow> unat inp' < unat inp"
    by (simp add: reverse_body_def)
next
  obtain k r' where k: "k \<le> 7"
    and loop: "reverse_loop (x, drop_bit 1 x, 7) = (r', 0, 7 - int k)"
    using reverse_loop_from_start [of x] by auto
  have "while_option reverse_cond reverse_body (x, drop_bit 1 x, 7) = Some (r', 0, 7 - int k)"
    by (simp only: while_reverse_loop loop)
  moreover have "reverse x = push_bit (nat (7 - int k)) r'"
    unfolding reverse_def loop by simp
  ultimately show "\<exists>r cnt. while_option reverse_cond reverse_body (x, drop_bit 1 x, 7)
      = Some (r, 0, cnt) \<and> 0 \<le> cnt \<and> cnt \<le> 7 \<and> reverse x = push_bit (nat cnt) r"
    using k by (intro exI [of _ r'] exI [of _ "7 - int k"]) simp
qed

theorem reverse_total_witness:
  "reverse_cond (0x17, 0x0B, 7) \<and>
   (case reverse_body (0x17, 0x0B, 7) of (r', inp', c') \<Rightarrow> unat inp' < unat (0x0B :: byte)) \<and>
   (\<exists>r cnt. while_option reverse_cond reverse_body (0x17, drop_bit 1 0x17, 7) = Some (r, 0, cnt) \<and>
      0 \<le> cnt \<and> cnt \<le> 7 \<and> reverse 0x17 = push_bit (nat cnt) r)"
proof -
  have c: "reverse_cond (0x17, 0x0B, 7)" by (simp add: reverse_cond_def)
  note t = reverse_total [of "0x17" "0x0B" 7 "0x17"]
  from t have d: "case reverse_body (0x17, 0x0B, 7) of (r', inp', c') \<Rightarrow> unat inp' < unat (0x0B :: byte)"
    using c by (rule conjunct1 [THEN mp])
  from t have e: "\<exists>r cnt. while_option reverse_cond reverse_body (0x17, drop_bit 1 0x17, 7)
      = Some (r, 0, cnt) \<and> 0 \<le> cnt \<and> cnt \<le> 7 \<and> reverse 0x17 = push_bit (nat cnt) r"
    by (rule conjunct2)
  from c d e show ?thesis by (intro conjI)
qed

section \<open>The first loop\<close>

lemma merge_loop_done: "\<not> i < PACKET_LENGTH \<Longrightarrow> merge_loop data p i h = Inr (True, h)"
  by (subst merge_loop.simps) simp

lemma merge_loop_overrun:
  "i < PACKET_LENGTH \<Longrightarrow> read_input data i = Inl f \<Longrightarrow> merge_loop data p i h = Inl f"
  by (subst merge_loop.simps) simp

lemma merge_loop_mismatch:
  "i < PACKET_LENGTH \<Longrightarrow> read_input data i = Inr d \<Longrightarrow> sequence_mismatch i d \<Longrightarrow>
   merge_loop data p i h = Inr (False, h)"
  by (subst merge_loop.simps) simp

text \<open>One pass of the body on a byte with the right tag.\<close>

lemma merge_loop_step:
  "i < PACKET_LENGTH \<Longrightarrow> read_input data i = Inr d \<Longrightarrow> \<not> sequence_mismatch i d \<Longrightarrow>
   merge_loop data p i h =
     (case load h p (i div 2) of
        Inl f \<Rightarrow> Inl f
      | Inr old \<Rightarrow>
          (case store h p (i div 2) (old OR merge_mask i d) of
             Inl f \<Rightarrow> Inl f
           | Inr h' \<Rightarrow> merge_loop data p (Suc i) h'))"
  by (subst merge_loop.simps) (simp add: merge_mask_def Let_def cong: sum.case_cong)

text \<open>The loop reads the input at the indices from \<open>i\<close> to 13 only.\<close>

lemma merge_loop_input:
  "(\<And>k. i \<le> k \<Longrightarrow> k < PACKET_LENGTH \<Longrightarrow> read_input d1 k = read_input d2 k) \<Longrightarrow>
   merge_loop d1 p i h = merge_loop d2 p i h"
proof (induction "PACKET_LENGTH - i" arbitrary: i h)
  case 0
  then have "\<not> i < PACKET_LENGTH" by simp
  then show ?case by (simp add: merge_loop_done)
next
  case (Suc n)
  then have i: "i < PACKET_LENGTH" by simp
  have same: "read_input d1 i = read_input d2 i" using Suc.prems i by simp
  have rec: "merge_loop d1 p (Suc i) h' = merge_loop d2 p (Suc i) h'" for h'
    using Suc.hyps Suc.prems by (intro Suc.hyps(1)) simp_all
  show ?case
  proof (cases "read_input d1 i")
    case (Inl f)
    then have "read_input d2 i = Inl f" using same by simp
    then show ?thesis
      by (simp add: merge_loop_overrun [OF i Inl] merge_loop_overrun [OF i])
  next
    case (Inr d)
    then have r2: "read_input d2 i = Inr d" using same by simp
    show ?thesis
    proof (cases "sequence_mismatch i d")
      case True
      show ?thesis
        by (simp add: merge_loop_mismatch [OF i Inr True] merge_loop_mismatch [OF i r2 True])
    next
      case False
      show ?thesis
        by (simp add: merge_loop_step [OF i Inr False] merge_loop_step [OF i r2 False] rec
              cong: sum.case_cong)
    qed
  qed
qed

text \<open>
  When the first byte with a wrong tag is at index \<open>j\<close>, the loop reads nothing after \<open>j\<close>
  and does not run to its end.
\<close>

lemma merge_loop_until_mismatch:
  "i \<le> j \<Longrightarrow> j < PACKET_LENGTH \<Longrightarrow> read_input d1 j = Inr d \<Longrightarrow> sequence_mismatch j d \<Longrightarrow>
   (\<And>k. i \<le> k \<Longrightarrow> k \<le> j \<Longrightarrow> read_input d1 k = read_input d2 k) \<Longrightarrow>
   merge_loop d1 p i h = merge_loop d2 p i h"
proof (induction "j - i" arbitrary: i h)
  case 0
  then have "i = j" by simp
  moreover have "read_input d2 j = Inr d" using 0 by simp
  ultimately show ?case using 0 by (simp add: merge_loop_mismatch)
next
  case (Suc n)
  then have i: "i < PACKET_LENGTH" and ij: "Suc i \<le> j" by simp_all
  have same: "read_input d1 i = read_input d2 i" using Suc.prems by simp
  have rec: "merge_loop d1 p (Suc i) h' = merge_loop d2 p (Suc i) h'" for h'
    using Suc.hyps(2) ij Suc.prems(2,3,4,5) by (intro Suc.hyps(1)) simp_all
  show ?case
  proof (cases "read_input d1 i")
    case (Inl f)
    then have "read_input d2 i = Inl f" using same by simp
    then show ?thesis
      by (simp add: merge_loop_overrun [OF i Inl] merge_loop_overrun [OF i])
  next
    case (Inr d')
    then have r2: "read_input d2 i = Inr d'" using same by simp
    show ?thesis
    proof (cases "sequence_mismatch i d'")
      case True
      show ?thesis
        by (simp add: merge_loop_mismatch [OF i Inr True] merge_loop_mismatch [OF i r2 True])
    next
      case False
      show ?thesis
        by (simp add: merge_loop_step [OF i Inr False] merge_loop_step [OF i r2 False] rec
              cong: sum.case_cong)
    qed
  qed
qed

lemma merge_loop_mismatch_not_ok:
  "i \<le> j \<Longrightarrow> j < PACKET_LENGTH \<Longrightarrow> read_input data j = Inr d \<Longrightarrow> sequence_mismatch j d \<Longrightarrow>
   merge_loop data p i h \<noteq> Inr (True, h')"
proof (induction "j - i" arbitrary: i h)
  case 0
  then have "i = j" by simp
  then show ?case using 0 by (simp add: merge_loop_mismatch)
next
  case (Suc n)
  then have i: "i < PACKET_LENGTH" and ij: "Suc i \<le> j" by simp_all
  have rec: "merge_loop data p (Suc i) h'' \<noteq> Inr (True, h')" for h''
    using Suc.hyps(2) ij Suc.prems(2,3,4) by (intro Suc.hyps(1)) simp_all
  show ?case
  proof (cases "read_input data i")
    case (Inl f)
    then show ?thesis using i by (simp add: merge_loop_overrun)
  next
    case (Inr d')
    show ?thesis
    proof (cases "sequence_mismatch i d'")
      case True
      then show ?thesis using i Inr by (simp add: merge_loop_mismatch)
    next
      case False
      then show ?thesis
        using i Inr rec by (simp add: merge_loop_step split: sum.splits)
    qed
  qed
qed

section \<open>The block is all the loops see of the heap\<close>

lemma load_block: "blocks h1 p1 = blocks h2 p2 \<Longrightarrow> load h1 p1 k = load h2 p2 k"
  by (simp add: load_def)

lemma store_block:
  "blocks h1 p1 = blocks h2 p2 \<Longrightarrow>
   map_sum id (\<lambda>h. blocks h p1) (store h1 p1 k v) = map_sum id (\<lambda>h. blocks h p2) (store h2 p2 k v)"
  by (simp add: store_def split: option.splits)

lemma store_block_Inl:
  "blocks h1 p1 = blocks h2 p2 \<Longrightarrow> store h1 p1 k v = Inl f \<Longrightarrow> store h2 p2 k v = Inl f"
  using store_block [of h1 p1 h2 p2 k v] by (cases "store h2 p2 k v") simp_all

lemma store_block_Inr:
  "blocks h1 p1 = blocks h2 p2 \<Longrightarrow> store h1 p1 k v = Inr h1' \<Longrightarrow>
   \<exists>h2'. store h2 p2 k v = Inr h2' \<and> blocks h1' p1 = blocks h2' p2"
  using store_block [of h1 p1 h2 p2 k v] by (cases "store h2 p2 k v") simp_all


lemma merge_loop_block:
  "blocks h1 p1 = blocks h2 p2 \<Longrightarrow>
   map_sum id (map_prod id (\<lambda>h. blocks h p1)) (merge_loop data p1 i h1) =
   map_sum id (map_prod id (\<lambda>h. blocks h p2)) (merge_loop data p2 i h2)"
proof (induction "PACKET_LENGTH - i" arbitrary: i h1 h2)
  case 0
  then have "\<not> i < PACKET_LENGTH" by simp
  then show ?case using 0 by (simp add: merge_loop_done)
next
  case (Suc n)
  then have i: "i < PACKET_LENGTH" by simp
  note eq = Suc.prems
  show ?case
  proof (cases "read_input data i")
    case (Inl f)
    show ?thesis by (simp add: merge_loop_overrun [OF i Inl])
  next
    case (Inr d)
    show ?thesis
    proof (cases "sequence_mismatch i d")
      case True
      show ?thesis using eq by (simp add: merge_loop_mismatch [OF i Inr True])
    next
      case False
      note step = merge_loop_step [OF i Inr False]
      show ?thesis
      proof (cases "load h1 p1 (i div 2)")
        case (Inl f)
        moreover from Inl have "load h2 p2 (i div 2) = Inl f"
          using load_block [OF eq] by simp
        ultimately show ?thesis by (simp add: step)
      next
        case old: (Inr old)
        then have old2: "load h2 p2 (i div 2) = Inr old"
          using load_block [OF eq] by simp
        show ?thesis
        proof (cases "store h1 p1 (i div 2) (old OR merge_mask i d)")
          case (Inl f)
          then have "store h2 p2 (i div 2) (old OR merge_mask i d) = Inl f"
            by (rule store_block_Inl [OF eq])
          then show ?thesis using Inl old old2 by (simp add: step)
        next
          case (Inr h1')
          then obtain h2' where st2: "store h2 p2 (i div 2) (old OR merge_mask i d) = Inr h2'"
            and eq': "blocks h1' p1 = blocks h2' p2"
            using store_block_Inr [OF eq] by blast
          have "n = PACKET_LENGTH - Suc i" using Suc.hyps(2) by simp
          from Suc.hyps(1) [OF this eq']
          show ?thesis using Inr st2 old old2 by (simp add: step)
        qed
      qed
    qed
  qed
qed


section \<open>The second loop\<close>

lemma reverse_data_loop_done: "\<not> i < PACKET_LENGTH \<Longrightarrow> reverse_data_loop p i h = Inr h"
  by (subst reverse_data_loop.simps) simp

lemma reverse_data_loop_step:
  "i < PACKET_LENGTH \<Longrightarrow>
   reverse_data_loop p i h =
     (case load h p i of
        Inl f \<Rightarrow> Inl f
      | Inr b \<Rightarrow>
          (case store h p i (reverse b) of
             Inl f \<Rightarrow> Inl f
           | Inr h' \<Rightarrow> reverse_data_loop p (Suc i) h'))"
  by (subst reverse_data_loop.simps) (simp cong: sum.case_cong)

lemma reverse_data_loop_block:
  "blocks h1 p1 = blocks h2 p2 \<Longrightarrow>
   map_sum id (\<lambda>h. blocks h p1) (reverse_data_loop p1 i h1) =
   map_sum id (\<lambda>h. blocks h p2) (reverse_data_loop p2 i h2)"
proof (induction "PACKET_LENGTH - i" arbitrary: i h1 h2)
  case 0
  then have "\<not> i < PACKET_LENGTH" by simp
  then show ?case using 0 by (simp add: reverse_data_loop_done)
next
  case (Suc n)
  then have i: "i < PACKET_LENGTH" by simp
  note eq = Suc.prems
  note step = reverse_data_loop_step [OF i]
  show ?case
  proof (cases "load h1 p1 i")
    case (Inl f)
    moreover from Inl have "load h2 p2 i = Inl f"
      using load_block [OF eq] by simp
    ultimately show ?thesis by (simp add: step)
  next
    case b: (Inr b)
    then have b2: "load h2 p2 i = Inr b"
      using load_block [OF eq] by simp
    show ?thesis
    proof (cases "store h1 p1 i (reverse b)")
      case (Inl f)
      then have "store h2 p2 i (reverse b) = Inl f"
        by (rule store_block_Inl [OF eq])
      then show ?thesis using Inl b b2 by (simp add: step)
    next
      case (Inr h1')
      then obtain h2' where st2: "store h2 p2 i (reverse b) = Inr h2'"
        and eq': "blocks h1' p1 = blocks h2' p2"
        using store_block_Inr [OF eq] by blast
      have "n = PACKET_LENGTH - Suc i" using Suc.hyps(2) by simp
      from Suc.hyps(1) [OF this eq']
      show ?thesis using Inr st2 b b2 by (simp add: step)
    qed
  qed
qed


text \<open>
  On a block shorter than \<open>PACKET_LENGTH\<close> the loop, which counts to \<open>PACKET_LENGTH\<close>,
  leaves the block at the block's length.
\<close>

lemma reverse_data_loop_overrun:
  "blocks h p = Some bs \<Longrightarrow> i \<le> length bs \<Longrightarrow> length bs < PACKET_LENGTH \<Longrightarrow>
   reverse_data_loop p i h = Inl (HeapOverrun (length bs))"
proof (induction "length bs - i" arbitrary: i h bs)
  case 0
  then have i: "i < PACKET_LENGTH" and il: "i = length bs" by simp_all
  have "load h p i = Inl (HeapOverrun (length bs))"
    using 0(2) il by (simp add: load_def)
  then show ?case
    by (simp add: reverse_data_loop_step [OF i])
next
  case (Suc n)
  then have i: "i < PACKET_LENGTH" and il: "i < length bs" by simp_all
  let ?h' = "h\<lparr>blocks := (blocks h)(p \<mapsto> bs[i := reverse (bs ! i)])\<rparr>"
  have ld: "load h p i = Inr (bs ! i)" using Suc.prems il by (simp add: load_def)
  have st: "store h p i (reverse (bs ! i)) = Inr ?h'"
    using Suc.prems il by (simp add: store_def)
  have "reverse_data_loop p (Suc i) ?h' = Inl (HeapOverrun (length (bs[i := reverse (bs ! i)])))"
    using Suc.hyps(2) Suc.prems il by (intro Suc.hyps(1)) simp_all
  then show ?case
    by (simp add: reverse_data_loop_step [OF i] ld st)
qed

section \<open>parse\_packet\<close>

lemmas unroll = parse_packet_def calloc_def sizeof_uint8_t_def merge_loop.simps
  reverse_data_loop.simps PACKET_LENGTH_def read_input_def sequence_mismatch_def
  load_def store_def

text \<open>The block of \<open>calloc(1, sizeof(uint8_t))\<close> is one zero byte.\<close>

lemma parse_packet_alt:
  "parse_packet data h =
     (case merge_loop data (brk h) 0 (h\<lparr>blocks := (blocks h)(brk h \<mapsto> [0]), brk := Suc (brk h)\<rparr>) of
        Inl f \<Rightarrow> Inl f
      | Inr (ok, h1) \<Rightarrow>
          if \<not> ok then Inr (None, h1)
          else
            (case reverse_data_loop (brk h) 0 h1 of
               Inl f \<Rightarrow> Inl f
             | Inr h2 \<Rightarrow> Inr (Some (brk h), h2)))"
  by (simp add: parse_packet_def calloc_def sizeof_uint8_t_def)

text \<open>The same call in two heaps: the same fault, or \<open>NULL\<close> twice, or blocks with the same bytes.\<close>

lemma parse_packet_heap:
  "reading_of (parse_packet data h1) = reading_of (parse_packet data h2)"
proof -
  let ?p1 = "brk h1" and ?p2 = "brk h2"
  let ?a1 = "h1\<lparr>blocks := (blocks h1)(brk h1 \<mapsto> [0]), brk := Suc (brk h1)\<rparr>"
  let ?a2 = "h2\<lparr>blocks := (blocks h2)(brk h2 \<mapsto> [0]), brk := Suc (brk h2)\<rparr>"
  have eq0: "blocks ?a1 ?p1 = blocks ?a2 ?p2" by simp
  note m = merge_loop_block [OF eq0, of data 0]
  show ?thesis
  proof (cases "merge_loop data ?p1 0 ?a1")
    case (Inl f)
    then have "merge_loop data ?p2 0 ?a2 = Inl f"
      using m by (cases "merge_loop data ?p2 0 ?a2") simp_all
    then show ?thesis using Inl by (simp add: parse_packet_alt reading_of_def)
  next
    case (Inr r1)
    obtain ok b1 where r1: "r1 = (ok, b1)" by (cases r1)
    obtain b2 where m2: "merge_loop data ?p2 0 ?a2 = Inr (ok, b2)"
      and eq1: "blocks b1 ?p1 = blocks b2 ?p2"
      using m Inr r1 by (cases "merge_loop data ?p2 0 ?a2") auto
    show ?thesis
    proof (cases ok)
      case False
      then show ?thesis using Inr r1 m2 by (simp add: parse_packet_alt reading_of_def)
    next
      case True
      note r = reverse_data_loop_block [OF eq1, of 0]
      show ?thesis
      proof (cases "reverse_data_loop ?p1 0 b1")
        case (Inl f)
        then have "reverse_data_loop ?p2 0 b2 = Inl f"
          using r by (cases "reverse_data_loop ?p2 0 b2") simp_all
        then show ?thesis using Inl \<open>merge_loop data ?p1 0 ?a1 = Inr r1\<close> r1 m2 True
          by (simp add: parse_packet_alt reading_of_def)
      next
        case e1: (Inr e1)
        then obtain e2 where "reverse_data_loop ?p2 0 b2 = Inr e2"
          and "blocks e1 ?p1 = blocks e2 ?p2"
          using r by (cases "reverse_data_loop ?p2 0 b2") auto
        then show ?thesis using e1 Inr r1 m2 True
          by (simp add: parse_packet_alt reading_of_def)
      qed
    qed
  qed
qed


lemma parse_packet_input:
  assumes "\<And>k. k < PACKET_LENGTH \<Longrightarrow> read_input d1 k = read_input d2 k"
  shows "parse_packet d1 h = parse_packet d2 h"
proof -
  have "merge_loop d1 p 0 a = merge_loop d2 p 0 a" for p a
    using assms by (intro merge_loop_input) simp
  then show ?thesis by (simp add: parse_packet_def)
qed

section \<open>The loops on a block with room\<close>

text \<open>
  What the two loops compute when the block is large enough for them, which the block
  of \<open>parse_packet\<close> is not: \<open>pending data i k\<close> is what the passes from \<open>i\<close> on still OR
  into byte \<open>k\<close>.
\<close>

lemma pending_end: "k < DATA_LENGTH \<Longrightarrow> pending data PACKET_LENGTH k = 0"
  by (simp add: pending_def DATA_LENGTH_def PACKET_LENGTH_def)

lemma pending_start: "pending data 0 k = spec_merged data k"
  by (simp add: pending_def spec_merged_def merge_mask_def)

lemma pending_other: "k \<noteq> i div 2 \<Longrightarrow> pending data (Suc i) k = pending data i k"
proof -
  assume "k \<noteq> i div 2"
  then have "i \<noteq> 2 * k" and "i \<noteq> 2 * k + 1" by auto
  then have "(Suc i \<le> 2 * k) = (i \<le> 2 * k)" and "(Suc i \<le> 2 * k + 1) = (i \<le> 2 * k + 1)"
    by auto
  then show ?thesis by (simp only: pending_def)
qed

lemma pending_here:
  "merge_mask i (data ! i) OR pending data (Suc i) (i div 2) = pending data i (i div 2)"
proof (cases "even i")
  case True
  then obtain k where i: "i = 2 * k" by (auto elim: evenE)
  then have "i div 2 = k" by simp
  then show ?thesis by (simp add: i pending_def)
next
  case False
  then obtain k where i: "i = 2 * k + 1" by (auto elim: oddE)
  then have "i div 2 = k" by simp
  then show ?thesis by (simp add: i pending_def)
qed

lemma merge_loop_room:
  assumes len: "length data = PACKET_LENGTH"
    and tags: "\<forall>i<PACKET_LENGTH. \<not> sequence_mismatch i (data ! i)"
  shows "blocks h p = Some bs \<Longrightarrow> DATA_LENGTH \<le> length bs \<Longrightarrow> i \<le> PACKET_LENGTH \<Longrightarrow>
    \<exists>h' bs'. merge_loop data p i h = Inr (True, h') \<and> blocks h' p = Some bs' \<and>
      length bs' = length bs \<and>
      (\<forall>k<length bs. bs' ! k = (if k < DATA_LENGTH then bs ! k OR pending data i k else bs ! k))"
proof (induction "PACKET_LENGTH - i" arbitrary: i h bs)
  case 0
  then have i: "i = PACKET_LENGTH" by simp
  then have "merge_loop data p i h = Inr (True, h)" by (simp add: merge_loop_done)
  then show ?case using 0(2) i
    by (intro exI [of _ h] exI [of _ bs]) (simp add: pending_end)
next
  case (Suc n)
  then have i: "i < PACKET_LENGTH" by simp
  let ?k = "i div 2"
  let ?v = "bs ! ?k OR merge_mask i (data ! i)"
  let ?bs1 = "bs[?k := ?v]"
  let ?h1 = "h\<lparr>blocks := (blocks h)(p \<mapsto> ?bs1)\<rparr>"
  have k: "?k < length bs"
    using i Suc.prems(2) by (simp add: PACKET_LENGTH_def DATA_LENGTH_def)
  have k7: "?k < DATA_LENGTH"
    using i by (simp add: PACKET_LENGTH_def DATA_LENGTH_def)
  have rd: "read_input data i = Inr (data ! i)" using i len by (simp add: read_input_def)
  have ok: "\<not> sequence_mismatch i (data ! i)" using i tags by simp
  have ld: "load h p ?k = Inr (bs ! ?k)" using Suc.prems(1) k by (simp add: load_def)
  have st: "store h p ?k ?v = Inr ?h1" using Suc.prems(1) k by (simp add: store_def)
  have step: "merge_loop data p i h = merge_loop data p (Suc i) ?h1"
    by (simp add: merge_loop_step [OF i rd ok] ld st)
  have "n = PACKET_LENGTH - Suc i" using Suc.hyps(2) by simp
  moreover have "blocks ?h1 p = Some ?bs1" by simp
  moreover have "DATA_LENGTH \<le> length ?bs1" using Suc.prems(2) by simp
  moreover have "Suc i \<le> PACKET_LENGTH" using i by simp
  ultimately obtain h' bs' where run: "merge_loop data p (Suc i) ?h1 = Inr (True, h')"
    and blk: "blocks h' p = Some bs'" and ln: "length bs' = length ?bs1"
    and val: "\<And>k. k < length ?bs1 \<Longrightarrow>
      bs' ! k = (if k < DATA_LENGTH then ?bs1 ! k OR pending data (Suc i) k else ?bs1 ! k)"
    using Suc.hyps(1) [of "Suc i" ?h1 ?bs1] by blast
  have "bs' ! j = (if j < DATA_LENGTH then bs ! j OR pending data i j else bs ! j)"
    if j: "j < length bs" for j
  proof (cases "j = ?k")
    case True
    have "bs' ! j = ?v OR pending data (Suc i) ?k"
      using val [of j] j k7 True by simp
    also have "\<dots> = bs ! ?k OR (merge_mask i (data ! i) OR pending data (Suc i) ?k)"
      by (simp add: or.assoc)
    also have "\<dots> = bs ! ?k OR pending data i ?k" by (simp only: pending_here)
    finally show ?thesis using True k7 by simp
  next
    case False
    then show ?thesis using val [of j] j by (simp add: pending_other)
  qed
  then show ?case using step run blk ln
    by (intro exI [of _ h'] exI [of _ bs']) simp
qed

lemma reverse_data_loop_room:
  "blocks h p = Some bs \<Longrightarrow> PACKET_LENGTH \<le> length bs \<Longrightarrow> i \<le> PACKET_LENGTH \<Longrightarrow>
   \<exists>h' bs'. reverse_data_loop p i h = Inr h' \<and> blocks h' p = Some bs' \<and>
     length bs' = length bs \<and>
     (\<forall>k<length bs. bs' ! k = (if i \<le> k \<and> k < PACKET_LENGTH then reverse (bs ! k) else bs ! k))"
proof (induction "PACKET_LENGTH - i" arbitrary: i h bs)
  case 0
  then have i: "i = PACKET_LENGTH" by simp
  then have "reverse_data_loop p i h = Inr h" by (simp add: reverse_data_loop_done)
  then show ?case using 0(2) i
    by (intro exI [of _ h] exI [of _ bs]) auto
next
  case (Suc n)
  then have i: "i < PACKET_LENGTH" by simp
  let ?bs1 = "bs[i := reverse (bs ! i)]"
  let ?h1 = "h\<lparr>blocks := (blocks h)(p \<mapsto> ?bs1)\<rparr>"
  have il: "i < length bs" using i Suc.prems(2) by simp
  have ld: "load h p i = Inr (bs ! i)" using Suc.prems(1) il by (simp add: load_def)
  have st: "store h p i (reverse (bs ! i)) = Inr ?h1" using Suc.prems(1) il by (simp add: store_def)
  have step: "reverse_data_loop p i h = reverse_data_loop p (Suc i) ?h1"
    by (simp add: reverse_data_loop_step [OF i] ld st)
  have "n = PACKET_LENGTH - Suc i" using Suc.hyps(2) by simp
  moreover have "blocks ?h1 p = Some ?bs1" by simp
  moreover have "PACKET_LENGTH \<le> length ?bs1" using Suc.prems(2) by simp
  moreover have "Suc i \<le> PACKET_LENGTH" using i by simp
  ultimately obtain h' bs' where run: "reverse_data_loop p (Suc i) ?h1 = Inr h'"
    and blk: "blocks h' p = Some bs'" and ln: "length bs' = length ?bs1"
    and val: "\<And>k. k < length ?bs1 \<Longrightarrow>
      bs' ! k = (if Suc i \<le> k \<and> k < PACKET_LENGTH then reverse (?bs1 ! k) else ?bs1 ! k)"
    using Suc.hyps(1) [of "Suc i" ?h1 ?bs1] by blast
  have "bs' ! j = (if i \<le> j \<and> j < PACKET_LENGTH then reverse (bs ! j) else bs ! j)"
    if j: "j < length bs" for j
  proof (cases "j = i")
    case True
    then show ?thesis using val [of j] j i by simp
  next
    case False
    then have "(Suc i \<le> j) = (i \<le> j)" by auto
    then show ?thesis using val [of j] j False by simp
  qed
  then show ?case using step run blk ln
    by (intro exI [of _ h'] exI [of _ bs']) simp
qed

text \<open>
  On a zeroed block of at least \<open>PACKET_LENGTH\<close> bytes, and a 14-byte input with the right
  tags, the loops run to their end and byte \<open>k\<close> of the block, for \<open>k\<close> from 0 to 6, is the
  bit reversal of \<open>(low nibble of data[2k] << 4) | low nibble of data[2k+1]\<close>.
\<close>

lemma loops_with_room:
  assumes len: "length data = PACKET_LENGTH"
    and tags: "\<forall>i<PACKET_LENGTH. \<not> sequence_mismatch i (data ! i)"
    and blk: "blocks h p = Some (replicate n 0)" and room: "PACKET_LENGTH \<le> n"
  shows "\<exists>h1 h2 out. merge_loop data p 0 h = Inr (True, h1) \<and>
    reverse_data_loop p 0 h1 = Inr h2 \<and> blocks h2 p = Some out \<and> length out = n \<and>
    (\<forall>k<DATA_LENGTH. out ! k = reverse (spec_merged data k))"
proof -
  have n7: "DATA_LENGTH \<le> length (replicate n (0 :: byte))"
    using room by (simp add: DATA_LENGTH_def PACKET_LENGTH_def)
  obtain h1 bs1 where m: "merge_loop data p 0 h = Inr (True, h1)"
    and b1: "blocks h1 p = Some bs1" and l1: "length bs1 = n"
    and v1: "\<And>k. k < n \<Longrightarrow> bs1 ! k = (if k < DATA_LENGTH
        then replicate n 0 ! k OR pending data 0 k else replicate n 0 ! k)"
    using merge_loop_room [OF len tags blk n7, of 0] by auto
  have n14: "PACKET_LENGTH \<le> length bs1" using room l1 by simp
  obtain h2 out where r: "reverse_data_loop p 0 h1 = Inr h2"
    and b2: "blocks h2 p = Some out" and l2: "length out = n"
    and v2: "\<And>k. k < n \<Longrightarrow> out ! k = (if 0 \<le> k \<and> k < PACKET_LENGTH
        then reverse (bs1 ! k) else bs1 ! k)"
    using reverse_data_loop_room [OF b1 n14, of 0] l1 by auto
  have "out ! k = reverse (spec_merged data k)" if "k < DATA_LENGTH" for k
  proof -
    have kn: "k < n" and k14: "k < PACKET_LENGTH"
      using that room by (simp_all add: DATA_LENGTH_def PACKET_LENGTH_def)
    have "bs1 ! k = spec_merged data k"
      using v1 [OF kn] that kn by (simp add: pending_start)
    then show ?thesis using v2 [OF kn] k14 by simp
  qed
  then show ?thesis using m r b2 l2 by blast
qed

text \<open>The packet of \<open>main\<close> on a zeroed block of 14 bytes.\<close>

lemma example_packet_with_room:
  "(case merge_loop example_packet 0 0
      \<lparr>blocks = [0 \<mapsto> [0, 0, 0, 0, 0, 0, 0, 0, 0, 0, 0, 0, 0, 0]], brk = 1\<rparr> of
      Inl f \<Rightarrow> Inl f
    | Inr (ok, h1) \<Rightarrow> map_sum id (\<lambda>h. blocks h 0) (reverse_data_loop 0 0 h1))
   = Inr (Some [0xEE, 0xEB, 0xAB, 0x9D, 0x0E, 0x01, 0x82, 0, 0, 0, 0, 0, 0, 0])"
  by (simp add: merge_loop.simps reverse_data_loop.simps PACKET_LENGTH_def read_input_def
      sequence_mismatch_def load_def store_def example_packet_def reverse_unfold)

section \<open>The claims about parse\_packet\<close>

text \<open>
  C1 (the code does not do what the claim says). The claim: for every 14-byte input
  whose high nibbles are the positions 1 to 14, decode succeeds and output byte \<open>k\<close> is the
  bit reversal of the two merged low nibbles. The code: the block is
  \<open>calloc(1, sizeof(uint8_t))\<close>, one byte, and on every such input the pass \<open>i = 2\<close> of
  the first loop accesses \<open>packet->data[1]\<close>, outside the block. (On a block with
  room the loops compute what the claim says: \<open>loops_with_room\<close>.)
\<close>

theorem parse_packet_leaves_block:
  assumes "length data = PACKET_LENGTH"
    and "\<forall>i<PACKET_LENGTH. \<not> sequence_mismatch i (data ! i)"
  shows "parse_packet data h = Inl (HeapOverrun 1)"
proof -
  have t: "\<not> sequence_mismatch 0 (data ! 0)" "\<not> sequence_mismatch (Suc 0) (data ! Suc 0)"
    "\<not> sequence_mismatch (Suc (Suc 0)) (data ! Suc (Suc 0))"
    using assms(2) by (simp_all add: PACKET_LENGTH_def)
  have r: "read_input data 0 = Inr (data ! 0)" "read_input data (Suc 0) = Inr (data ! Suc 0)"
    "read_input data (Suc (Suc 0)) = Inr (data ! Suc (Suc 0))"
    using assms(1) by (simp_all add: read_input_def PACKET_LENGTH_def)
  have i: "0 < PACKET_LENGTH" "Suc 0 < PACKET_LENGTH" "Suc (Suc 0) < PACKET_LENGTH"
    by (simp_all add: PACKET_LENGTH_def)
  show ?thesis
    unfolding parse_packet_alt
    by (simp add: merge_loop_step [OF i(1) r(1) t(1)] merge_loop_step [OF i(2) r(2) t(2)]
        merge_loop_step [OF i(3) r(3) t(3)] load_def store_def)
qed

theorem parse_packet_leaves_block_witness:
  "length [0x1F, 0x2E, 0x3D, 0x4C, 0x5B, 0x6A, 0x79, 0x88, 0x97, 0xA6, 0xB5, 0xC4, 0xD3, 0xE2 :: byte]
     = PACKET_LENGTH \<and>
   parse_packet [0x1F, 0x2E, 0x3D, 0x4C, 0x5B, 0x6A, 0x79, 0x88, 0x97, 0xA6, 0xB5, 0xC4, 0xD3, 0xE2]
     empty_heap = Inl (HeapOverrun 1)"
proof -
  let ?w = "[0x1F, 0x2E, 0x3D, 0x4C, 0x5B, 0x6A, 0x79, 0x88, 0x97, 0xA6, 0xB5, 0xC4, 0xD3, 0xE2 :: byte]"
  have l: "length ?w = PACKET_LENGTH" by (simp add: PACKET_LENGTH_def)
  have "\<not> sequence_mismatch i (?w ! i)" if "i < 14" for i
  proof -
    from that have "i = 0 \<or> i = 1 \<or> i = 2 \<or> i = 3 \<or> i = 4 \<or> i = 5 \<or> i = 6 \<or> i = 7
        \<or> i = 8 \<or> i = 9 \<or> i = 10 \<or> i = 11 \<or> i = 12 \<or> i = 13" by arith
    then show ?thesis by (elim disjE) (simp_all add: sequence_mismatch_def)
  qed
  then have t: "\<forall>i<PACKET_LENGTH. \<not> sequence_mismatch i (?w ! i)"
    by (simp add: PACKET_LENGTH_def)
  from l parse_packet_leaves_block [OF l t, of empty_heap] show ?thesis by (intro conjI)
qed

text \<open>
  C8 (the code does not do what the claim says). The claim: decoding the packet of \<open>main\<close>
  succeeds and yields a 7-byte merged and bit-reversed buffer. The code: the same access
  outside the one-byte block as in C1. (On a block with room the loops give
  EE EB AB 9D 0E 01 82: \<open>example_packet_with_room\<close>.)
\<close>

theorem example_packet_leaves_block:
  "parse_packet example_packet h = Inl (HeapOverrun 1)"
  by (simp add: unroll example_packet_def)

text \<open>
  C4 (the code does not do what the claim says). The claim: the bit-order step accesses
  the data buffer at the indices 0 to 6 only. The code: the second loop counts to
  \<open>PACKET_LENGTH\<close>, not \<open>DATA_LENGTH\<close>; on a data buffer of \<open>DATA_LENGTH\<close> bytes it
  reverses the seven bytes and then accesses index 7.
\<close>

theorem reversal_pass_leaves_data:
  assumes "blocks h p = Some bs" and "length bs = DATA_LENGTH"
  shows "reverse_data_loop p 0 h = Inl (HeapOverrun DATA_LENGTH)"
proof -
  have "length bs < PACKET_LENGTH"
    using assms(2) by (simp add: DATA_LENGTH_def PACKET_LENGTH_def)
  from reverse_data_loop_overrun [OF assms(1) _ this, of 0] show ?thesis
    using assms(2) by simp
qed

theorem reversal_pass_leaves_data_witness:
  "blocks \<lparr>blocks = [0 \<mapsto> [0x77, 0xD7, 0xD5, 0xB9, 0x70, 0x80, 0x41]], brk = 1\<rparr> 0
     = Some [0x77, 0xD7, 0xD5, 0xB9, 0x70, 0x80, 0x41] \<and>
   length [0x77, 0xD7, 0xD5, 0xB9, 0x70, 0x80, 0x41 :: byte] = DATA_LENGTH \<and>
   reverse_data_loop 0 0 \<lparr>blocks = [0 \<mapsto> [0x77, 0xD7, 0xD5, 0xB9, 0x70, 0x80, 0x41]], brk = 1\<rparr>
     = Inl (HeapOverrun DATA_LENGTH)"
proof -
  let ?bs = "[0x77, 0xD7, 0xD5, 0xB9, 0x70, 0x80, 0x41 :: byte]"
  let ?h = "\<lparr>blocks = [0 \<mapsto> ?bs], brk = 1\<rparr>"
  have b: "blocks ?h 0 = Some ?bs" by simp
  have l: "length ?bs = DATA_LENGTH" by (simp add: DATA_LENGTH_def)
  from b l reversal_pass_leaves_data [OF b l] show ?thesis by (intro conjI)
qed

text \<open>
  C2 (corrected). The claim: a byte whose high nibble is not its position makes decode
  fail with an error that carries the offending index. The code returns \<open>NULL\<close>, which
  carries nothing: a packet wrong at index 0 and a packet wrong at index 1 give the same
  result.
\<close>

theorem mismatch_index_not_carried:
  "sequence_mismatch 0 ([0x27, 0x27, 0x3D, 0x47, 0x5D, 0x65, 0x7B, 0x89, 0x97, 0xA0, 0xB8, 0xC0, 0xD4, 0xE1] ! 0) \<and>
   \<not> sequence_mismatch 0 ([0x17, 0x37, 0x3D, 0x47, 0x5D, 0x65, 0x7B, 0x89, 0x97, 0xA0, 0xB8, 0xC0, 0xD4, 0xE1] ! 0) \<and>
   sequence_mismatch 1 ([0x17, 0x37, 0x3D, 0x47, 0x5D, 0x65, 0x7B, 0x89, 0x97, 0xA0, 0xB8, 0xC0, 0xD4, 0xE1] ! 1) \<and>
   reading_of (parse_packet
     [0x27, 0x27, 0x3D, 0x47, 0x5D, 0x65, 0x7B, 0x89, 0x97, 0xA0, 0xB8, 0xC0, 0xD4, 0xE1] empty_heap)
     = Inr None \<and>
   reading_of (parse_packet
     [0x17, 0x37, 0x3D, 0x47, 0x5D, 0x65, 0x7B, 0x89, 0x97, 0xA0, 0xB8, 0xC0, 0xD4, 0xE1] empty_heap)
     = Inr None"
  by (simp add: unroll reading_of_def empty_heap_def)

text \<open>
  C2 as amended. For every 14-byte input with a byte at index \<open>j\<close> whose high nibble is
  not \<open>j + 1\<close>: decode reads no byte after index \<open>j\<close> (the input cut after \<open>j\<close> gives the
  same result), it returns no reading, and when \<open>j\<close> is 0, 1 or 2 it returns \<open>NULL\<close>.
\<close>

theorem mismatch_no_reading:
  assumes "length data = PACKET_LENGTH" and "j < PACKET_LENGTH"
    and "sequence_mismatch j (data ! j)"
  shows "parse_packet (take (Suc j) data) h = parse_packet data h \<and>
         (\<forall>p h'. parse_packet data h \<noteq> Inr (Some p, h')) \<and>
         (j \<le> 2 \<longrightarrow> reading_of (parse_packet data h) = Inr None)"
proof (intro conjI allI impI)
  have rj: "read_input data j = Inr (data ! j)"
    using assms(1,2) by (simp add: read_input_def)
  have same: "read_input data k = read_input (take (Suc j) data) k" if "k \<le> j" for k
    using that assms(1,2) by (simp add: read_input_def)
  have "merge_loop data p 0 a = merge_loop (take (Suc j) data) p 0 a" for p a
    using assms(2) rj assms(3) same by (intro merge_loop_until_mismatch [of 0 j]) simp_all
  then show "parse_packet (take (Suc j) data) h = parse_packet data h"
    by (simp add: parse_packet_def)
next
  fix p h'
  have rj: "read_input data j = Inr (data ! j)"
    using assms(1,2) by (simp add: read_input_def)
  have "merge_loop data q 0 a \<noteq> Inr (True, b)" for q a b
    using assms(2) rj assms(3) by (intro merge_loop_mismatch_not_ok [of 0 j]) simp_all
  then show "parse_packet data h \<noteq> Inr (Some p, h')"
    by (auto simp: parse_packet_alt split: sum.splits)
next
  assume "j \<le> 2"
  then consider "j = 0" | "j = 1" | "j = 2" by linarith
  then show "reading_of (parse_packet data h) = Inr None"
  proof cases
    case 1
    then show ?thesis using assms(1,3) by (auto simp: unroll reading_of_def Let_def)
  next
    case 2
    then show ?thesis using assms(1,3) by (auto simp: unroll reading_of_def Let_def)
  next
    case 3
    then have "sequence_mismatch (Suc (Suc 0)) (data ! Suc (Suc 0))"
      using assms(3) by (simp add: numeral_2_eq_2)
    then show ?thesis using assms(1) by (auto simp: unroll reading_of_def Let_def)
  qed
qed

theorem mismatch_no_reading_witness:
  "length [0x17, 0x37, 0x3D, 0x47, 0x5D, 0x65, 0x7B, 0x89, 0x97, 0xA0, 0xB8, 0xC0, 0xD4, 0xE1 :: byte]
     = PACKET_LENGTH \<and> 1 < PACKET_LENGTH \<and>
   sequence_mismatch 1
     ([0x17, 0x37, 0x3D, 0x47, 0x5D, 0x65, 0x7B, 0x89, 0x97, 0xA0, 0xB8, 0xC0, 0xD4, 0xE1] ! 1) \<and>
   parse_packet (take (Suc 1)
     [0x17, 0x37, 0x3D, 0x47, 0x5D, 0x65, 0x7B, 0x89, 0x97, 0xA0, 0xB8, 0xC0, 0xD4, 0xE1]) empty_heap
     = parse_packet
     [0x17, 0x37, 0x3D, 0x47, 0x5D, 0x65, 0x7B, 0x89, 0x97, 0xA0, 0xB8, 0xC0, 0xD4, 0xE1] empty_heap \<and>
   (1::nat) \<le> 2 \<and>
   reading_of (parse_packet
     [0x17, 0x37, 0x3D, 0x47, 0x5D, 0x65, 0x7B, 0x89, 0x97, 0xA0, 0xB8, 0xC0, 0xD4, 0xE1] empty_heap)
     = Inr None"
proof -
  let ?w = "[0x17, 0x37, 0x3D, 0x47, 0x5D, 0x65, 0x7B, 0x89, 0x97, 0xA0, 0xB8, 0xC0, 0xD4, 0xE1 :: byte]"
  have l: "length ?w = PACKET_LENGTH" by (simp add: PACKET_LENGTH_def)
  have j: "1 < PACKET_LENGTH" by (simp add: PACKET_LENGTH_def)
  have m: "sequence_mismatch 1 (?w ! 1)" by (simp add: sequence_mismatch_def)
  have le: "(1::nat) \<le> 2" by simp
  note t = mismatch_no_reading [OF l j m, of empty_heap]
  from t have a: "parse_packet (take (Suc 1) ?w) empty_heap = parse_packet ?w empty_heap"
    by (rule conjunct1)
  from t have "1 \<le> (2::nat) \<longrightarrow> reading_of (parse_packet ?w empty_heap) = Inr None"
    by (rule conjunct2 [THEN conjunct2])
  then have b: "reading_of (parse_packet ?w empty_heap) = Inr None" using le by (rule mp)
  from l j m a le b show ?thesis by (intro conjI)
qed

text \<open>
  C3 (corrected). The claim: an input that is not exactly 14 bytes long fails with a
  distinct \<open>InvalidLength\<close> error, checked before the tags, so that the input is never
  read out of bounds. The code receives a pointer and no length, and checks none: a
  one-byte input with a wrong tag gives the \<open>NULL\<close> of a 14-byte packet with a wrong tag,
  the packet of \<open>main\<close> followed by a fifteenth byte gives the result of the packet of
  \<open>main\<close>, and an empty input is read at index 0.
\<close>

theorem no_length_check:
  "length [0x27 :: byte] \<noteq> PACKET_LENGTH \<and>
   reading_of (parse_packet [0x27] empty_heap) = Inr None \<and>
   reading_of (parse_packet
     [0x27, 0x27, 0x3D, 0x47, 0x5D, 0x65, 0x7B, 0x89, 0x97, 0xA0, 0xB8, 0xC0, 0xD4, 0xE1] empty_heap)
     = Inr None \<and>
   length (example_packet @ [0x00]) \<noteq> PACKET_LENGTH \<and>
   parse_packet (example_packet @ [0x00]) empty_heap = parse_packet example_packet empty_heap \<and>
   length ([] :: byte list) \<noteq> PACKET_LENGTH \<and>
   parse_packet [] empty_heap = Inl (InputOverrun 0)"
  by (simp add: unroll reading_of_def empty_heap_def example_packet_def)

text \<open>
  C3 as amended. decode checks no length: it never reads past index 13, so an input of
  14 bytes or more gives the result of its first 14 bytes.
\<close>

theorem longer_input_as_first_14:
  assumes "PACKET_LENGTH \<le> length data"
  shows "parse_packet data h = parse_packet (take PACKET_LENGTH data) h"
proof (rule parse_packet_input)
  fix k assume "k < PACKET_LENGTH"
  then show "read_input data k = read_input (take PACKET_LENGTH data) k"
    using assms by (simp add: read_input_def)
qed

theorem longer_input_as_first_14_witness:
  "PACKET_LENGTH \<le> length (example_packet @ [0xFF, 0x00]) \<and>
   parse_packet (example_packet @ [0xFF, 0x00]) empty_heap
     = parse_packet (take PACKET_LENGTH (example_packet @ [0xFF, 0x00])) empty_heap"
proof -
  have l: "PACKET_LENGTH \<le> length (example_packet @ [0xFF, 0x00])"
    by (simp add: PACKET_LENGTH_def example_packet_def)
  from l longer_input_as_first_14 [OF l, of empty_heap] show ?thesis by (intro conjI)
qed



section \<open>The claims about lookup\_digit\<close>

text \<open>
  C7 (the code does not do what the claim says). The claim: \<open>lookup_digit\<close> maps the
  eleven segment patterns to the characters 0 to 9 and L, and every other value to an
  empty result. The code returns the low byte of the address of a string literal: with
  the literals 64 bytes apart from 0x4A0020, the pattern 0x7D gives 0x20 and not the
  character 0 (0x30), the pattern 0x05 gives 0x60 and not the character 1 (0x31), and
  0x00, which is no pattern, gives 0xE0.
\<close>

theorem lookup_digit_address_byte:
  "lookup_digit spaced_literals 0x7D = 0x20 \<and> lookup_digit spaced_literals 0x7D \<noteq> 0x30 \<and>
   lookup_digit spaced_literals 0x05 = 0x60 \<and> lookup_digit spaced_literals 0x05 \<noteq> 0x31 \<and>
   lookup_digit spaced_literals 0x00 = 0xE0"
  by (simp add: lookup_digit_def spaced_literals_def pointer_to_char_def)

text \<open>
  C10 (the code does not do what the claim says). The claim: two different patterns
  among the eleven give different characters. The code returns address bytes, which can
  coincide: with the literals 64 bytes apart from 0x4A0020, the patterns 0x7D, 0x27 and
  0x7F all give 0x20.
\<close>

theorem lookup_digit_collision:
  "0x7D \<in> set segment_patterns \<and> 0x27 \<in> set segment_patterns \<and> 0x7F \<in> set segment_patterns \<and>
   (0x7D :: byte) \<noteq> 0x27 \<and> (0x27 :: byte) \<noteq> 0x7F \<and> (0x7D :: byte) \<noteq> 0x7F \<and>
   lookup_digit spaced_literals 0x7D = lookup_digit spaced_literals 0x27 \<and>
   lookup_digit spaced_literals 0x27 = lookup_digit spaced_literals 0x7F"
  by (simp add: lookup_digit_def spaced_literals_def pointer_to_char_def segment_patterns_def)

end
